theory Spec2Isabelle
  imports Main "HOL-Library.List_Lexorder"
begin

section \<open>Python values used by books.py\<close>

text \<open>
  A Python \<^verbatim>\<open>str\<close> is a sequence of Unicode code points; \<^verbatim>\<open>ord\<close> of a character is
  its code point.  Code points and the integer keys of \<^verbatim>\<open>UNACCENTED\<close> are Python ints.
\<close>

type_synonym ustr = "int list"

text \<open>ASCII text written as a literal: \<open>u ''AE''\<close> is the str \<^verbatim>\<open>'AE'\<close>.\<close>

definition u :: "string \<Rightarrow> ustr" where
  "u s = map of_char s"

text \<open>
  The exceptions that escape the functions modelled here; \<open>OperationalError\<close> is the one
  of \<^verbatim>\<open>sqlite3\<close>, raised by a query.
\<close>

datatype py_error = ValueError | OverflowError | OperationalError

text \<open>
  A value stored in \<^verbatim>\<open>UnaccentedMap\<close>: \<^verbatim>\<open>__missing__\<close> stores either an int (a code
  point, or the key itself) or one of the strings of \<^verbatim>\<open>CHAR_REPLACEMENT\<close>.
\<close>

datatype repl = PyInt int | PyStr ustr

text \<open>
  \<^verbatim>\<open>chr(key)\<close>: ValueError outside \<^verbatim>\<open>range(0x110000)\<close>, OverflowError when the
  argument does not fit a C int.
\<close>

definition chr :: "int \<Rightarrow> py_error + int" where
  "chr key =
     (if key < - (2 ^ 31) \<or> 2 ^ 31 \<le> key then Inl OverflowError
      else if key < 0 \<or> 0x110000 \<le> key then Inl ValueError
      else Inr key)"

subsection \<open>Whitespace and \<^verbatim>\<open>str.split()\<close>\<close>

text \<open>
  The code points for which \<^verbatim>\<open>str.isspace\<close> holds; \<^verbatim>\<open>str.split()\<close> without a
  separator splits on runs of them.
\<close>

definition isspace :: "int \<Rightarrow> bool" where
  "isspace c \<longleftrightarrow>
     (0x09 \<le> c \<and> c \<le> 0x0D) \<or> (0x1C \<le> c \<and> c \<le> 0x20) \<or> c = 0x85 \<or> c = 0xA0 \<or>
     c = 0x1680 \<or> (0x2000 \<le> c \<and> c \<le> 0x200A) \<or> c = 0x2028 \<or> c = 0x2029 \<or>
     c = 0x202F \<or> c = 0x205F \<or> c = 0x3000"

text \<open>
  \<^verbatim>\<open>s.split()\<close>: skip whitespace, take the run of non-whitespace characters as a
  token, repeat until the string is exhausted.
\<close>

function split :: "('a \<Rightarrow> bool) \<Rightarrow> 'a list \<Rightarrow> 'a list list" where
  "split sp s =
     (let s1 = dropWhile sp s
      in if s1 = [] then []
         else takeWhile (\<lambda>c. \<not> sp c) s1 # split sp (dropWhile (\<lambda>c. \<not> sp c) s1))"
  by pat_completeness auto
termination
proof (relation "measure (\<lambda>(sp, s). length s)")
  show "wf (measure (\<lambda>(sp, s). length s))" by simp
next
  fix sp :: "'a \<Rightarrow> bool" and s s1 :: "'a list"
  assume s1: "s1 = dropWhile sp s" and ne: "s1 \<noteq> []"
  from ne obtain c cs where c: "s1 = c # cs" by (cases s1) auto
  from s1 ne have "\<not> sp (hd s1)" by (simp add: hd_dropWhile)
  with c have "\<not> sp c" by simp
  with c have "length (dropWhile (\<lambda>c. \<not> sp c) s1) \<le> length cs"
    by (simp add: length_dropWhile_le)
  also have "length cs < length s1" using c by simp
  also have "length s1 \<le> length s" using s1 by (simp add: length_dropWhile_le)
  finally show "((sp, dropWhile (\<lambda>c. \<not> sp c) s1), (sp, s)) \<in> measure (\<lambda>(sp, s). length s)"
    by simp
qed

text \<open>
  \<^verbatim>\<open>s.split(None, 1)\<close>: at most one split; the remainder, stripped of leading
  whitespace only, is the second element when it is not empty.
\<close>

definition split1 :: "('a \<Rightarrow> bool) \<Rightarrow> 'a list \<Rightarrow> 'a list list" where
  "split1 sp s =
     (let s1 = dropWhile sp s
      in if s1 = [] then []
         else let rest = dropWhile sp (dropWhile (\<lambda>c. \<not> sp c) s1)
              in takeWhile (\<lambda>c. \<not> sp c) s1 # (if rest = [] then [] else [rest]))"

text \<open>\<^verbatim>\<open>' '.join(xs)\<close>.\<close>

fun join :: "ustr list \<Rightarrow> ustr" where
  "join [] = []"
| "join [x] = x"
| "join (x # y # ys) = x @ 0x20 # join (y # ys)"

subsection \<open>\<^verbatim>\<open>int(s, 16)\<close>\<close>

text \<open>
  The text returned by \<^verbatim>\<open>unicodedata.decomposition\<close> is ASCII, so it is modelled as
  8-bit characters.  \<open>digit_value\<close> is the digit table of the integer parser: the value
  of a character as a digit, 37 for a character that is no digit.
\<close>

definition digit_value :: "char \<Rightarrow> int" where
  "digit_value c =
     (let n = of_char c :: int
      in if 0x30 \<le> n \<and> n \<le> 0x39 then n - 0x30
         else if 0x61 \<le> n \<and> n \<le> 0x7A then n - 0x61 + 10
         else if 0x41 \<le> n \<and> n \<le> 0x5A then n - 0x41 + 10
         else 37)"

text \<open>
  The digit loop: hexadecimal digits, with single underscores allowed between them.
  \<open>prev\<close> tells whether the previous character was an underscore; \<open>None\<close> is the
  parser's syntax error.
\<close>

fun scan_digits :: "bool \<Rightarrow> int \<Rightarrow> string \<Rightarrow> int option" where
  "scan_digits prev acc [] = (if prev then None else Some acc)"
| "scan_digits prev acc (c # cs) =
     (if c = CHR ''_'' then (if prev then None else scan_digits True acc cs)
      else if digit_value c < 16 then scan_digits False (16 * acc + digit_value c) cs
      else None)"

text \<open>An optional sign.\<close>

fun strip_sign :: "string \<Rightarrow> int \<times> string" where
  "strip_sign [] = (1, [])"
| "strip_sign (c # cs) =
     (if c = CHR ''+'' then (1, cs) else if c = CHR ''-'' then (- 1, cs) else (1, c # cs))"

text \<open>An optional \<^verbatim>\<open>0x\<close> or \<^verbatim>\<open>0X\<close>, after which one underscore is allowed.\<close>

fun strip_prefix :: "string \<Rightarrow> string" where
  "strip_prefix (a # b # cs) =
     (if a = CHR ''0'' \<and> (b = CHR ''x'' \<or> b = CHR ''X'')
      then (case cs of [] \<Rightarrow> [] | c # cs' \<Rightarrow> if c = CHR ''_'' then cs' else c # cs')
      else a # b # cs)"
| "strip_prefix s = s"

text \<open>
  \<^verbatim>\<open>int(s, 16)\<close> for a string without whitespace (a token of \<^verbatim>\<open>split\<close>);
  \<open>None\<close> is ValueError.  The digits may not be empty nor start with an underscore.
\<close>

definition int16 :: "string \<Rightarrow> int option" where
  "int16 s =
     (case strip_sign s of (sign, s1) \<Rightarrow>
        (case strip_prefix s1 of
           [] \<Rightarrow> None
         | c # cs \<Rightarrow>
             if c = CHR ''_'' then None
             else map_option (\<lambda>v. sign * v) (scan_digits False 0 (c # cs))))"

section \<open>UnaccentedMap\<close>

text \<open>\<^verbatim>\<open>UnaccentedMap.CHAR_REPLACEMENT\<close>, keyed by code point.\<close>

definition CHAR_REPLACEMENT :: "(int \<times> ustr) list" where
  "CHAR_REPLACEMENT =
     [(0xC6, u ''AE''), (0xE6, u ''ae''), (0xD0, u ''D''), (0xF0, u ''d''),
      (0xD8, u ''OE''), (0xF8, u ''oe''), (0xDE, u ''Th''), (0xFE, u ''th''),
      (0xDF, u ''ss''), (0x110, u ''Dj''), (0x111, u ''dj''), (0x126, u ''H''),
      (0x127, u ''h''), (0x131, u ''i''), (0x138, u ''q''), (0x141, u ''L''),
      (0x142, u ''l''), (0x14A, u ''Ng''), (0x14B, u ''ng''), (0x152, u ''OE''),
      (0x153, u ''oe''), (0x166, u ''Th''), (0x167, u ''th'')]"

text \<open>
  The table of \<^verbatim>\<open>unicodedata.decomposition\<close> belongs to the Python library, not to
  this program: it is the parameter \<open>d\<close>, from a code point to the decomposition text
  (empty when the character has none).

  \<open>replacement d key\<close> is what \<^verbatim>\<open>__missing__\<close> computes for a key that is not cached
  (lines 61 to 68).  \<^verbatim>\<open>split(None, 1)[0]\<close> raises IndexError on an empty list and
  \<^verbatim>\<open>int\<close> raises ValueError; both are caught and give the key itself.
\<close>

definition replacement :: "(int \<Rightarrow> string) \<Rightarrow> int \<Rightarrow> py_error + repl" where
  "replacement d key =
     (case chr key of
        Inl e \<Rightarrow> Inl e
      | Inr k \<Rightarrow>
          (let de = d k
           in if de \<noteq> [] then
                (case split1 (\<lambda>c. isspace (of_char c)) de of
                   [] \<Rightarrow> Inr (PyInt key)
                 | t # _ \<Rightarrow>
                     (case int16 t of
                        None \<Rightarrow> Inr (PyInt key)
                      | Some v \<Rightarrow> Inr (PyInt v)))
              else
                (case map_of CHAR_REPLACEMENT key of
                   None \<Rightarrow> Inr (PyInt key)
                 | Some s \<Rightarrow> Inr (PyStr s))))"

text \<open>
  The dict itself is the cache, a map from keys to stored values.  \<^verbatim>\<open>__missing__\<close>
  returns a value already stored (\<^verbatim>\<open>self.get(key)\<close>), otherwise computes the
  replacement, stores it and returns it.
\<close>

type_synonym cache = "int \<rightharpoonup> repl"

definition missing :: "(int \<Rightarrow> string) \<Rightarrow> cache \<Rightarrow> int \<Rightarrow> py_error + repl \<times> cache" where
  "missing d m key =
     (case m key of
        Some ch \<Rightarrow> Inr (ch, m)
      | None \<Rightarrow>
          (case replacement d key of
             Inl e \<Rightarrow> Inl e
           | Inr ch \<Rightarrow> Inr (ch, m(key \<mapsto> ch))))"

text \<open>\<^verbatim>\<open>UNACCENTED[key]\<close>: the dict lookup, which calls \<^verbatim>\<open>__missing__\<close> for an absent key.\<close>

definition getitem :: "(int \<Rightarrow> string) \<Rightarrow> cache \<Rightarrow> int \<Rightarrow> py_error + repl \<times> cache" where
  "getitem d m key = (case m key of Some ch \<Rightarrow> Inr (ch, m) | None \<Rightarrow> missing d m key)"

text \<open>
  What \<^verbatim>\<open>str.translate\<close> does with a looked-up value: an int must be in
  \<^verbatim>\<open>range(0x110000)\<close> and stands for that character, a str is inserted as it is.
\<close>

definition chars_of :: "repl \<Rightarrow> py_error + ustr" where
  "chars_of x =
     (case x of
        PyInt v \<Rightarrow> if v < 0 \<or> 0x10FFFF < v then Inl ValueError else Inr [v]
      | PyStr t \<Rightarrow> Inr t)"

text \<open>
  \<^verbatim>\<open>s.translate(UNACCENTED)\<close>: every character is looked up in turn, left to right,
  and the cache is threaded through the lookups.
\<close>

fun translate :: "(int \<Rightarrow> string) \<Rightarrow> cache \<Rightarrow> ustr \<Rightarrow> py_error + ustr \<times> cache" where
  "translate d m [] = Inr ([], m)"
| "translate d m (c # cs) =
     (case getitem d m c of
        Inl e \<Rightarrow> Inl e
      | Inr (x, m1) \<Rightarrow>
          (case chars_of x of
             Inl e \<Rightarrow> Inl e
           | Inr t \<Rightarrow>
               (case translate d m1 cs of
                  Inl e \<Rightarrow> Inl e
                | Inr (r, m2) \<Rightarrow> Inr (t @ r, m2))))"


text \<open>The string left after dropping the cache from a result.\<close>

definition text_of :: "py_error + ustr \<times> cache \<Rightarrow> py_error + ustr" where
  "text_of r = (case r of Inl e \<Rightarrow> Inl e | Inr (t, m) \<Rightarrow> Inr t)"

text \<open>\<^verbatim>\<open>s.translate(UNACCENTED).translate(UNACCENTED)\<close>.\<close>

definition translate_twice :: "(int \<Rightarrow> string) \<Rightarrow> cache \<Rightarrow> ustr \<Rightarrow> py_error + ustr \<times> cache" where
  "translate_twice d m s =
     (case translate d m s of Inl e \<Rightarrow> Inl e | Inr (t, m1) \<Rightarrow> translate d m1 t)"

subsection \<open>The folding without its cache\<close>

text \<open>
  Only \<^verbatim>\<open>__missing__\<close> writes to \<^verbatim>\<open>UNACCENTED\<close>, so every entry of the cache is
  the replacement computed for its key: \<open>cache_ok\<close>.  On such a cache the lookups
  compute the functions \<open>Fold\<close> (the characters \<^verbatim>\<open>translate\<close> emits for one code
  point) and \<open>FoldText\<close> (for a string), which do not mention the cache.
\<close>

definition cache_ok :: "(int \<Rightarrow> string) \<Rightarrow> cache \<Rightarrow> bool" where
  "cache_ok d m \<longleftrightarrow> (\<forall>key ch. m key = Some ch \<longrightarrow> replacement d key = Inr ch)"

definition Fold :: "(int \<Rightarrow> string) \<Rightarrow> int \<Rightarrow> py_error + ustr" where
  "Fold d c = (case replacement d c of Inl e \<Rightarrow> Inl e | Inr x \<Rightarrow> chars_of x)"

fun FoldText :: "(int \<Rightarrow> string) \<Rightarrow> ustr \<Rightarrow> py_error + ustr" where
  "FoldText d [] = Inr []"
| "FoldText d (c # cs) =
     (case Fold d c of
        Inl e \<Rightarrow> Inl e
      | Inr t \<Rightarrow> (case FoldText d cs of Inl e \<Rightarrow> Inl e | Inr r \<Rightarrow> Inr (t @ r)))"

text \<open>
  A few entries of the Unicode Character Database (the decomposition mapping field of
  UnicodeData.txt, which \<^verbatim>\<open>unicodedata.decomposition\<close> returns), used as a concrete
  table.  The characters not listed are given no decomposition here; among them are
  U+0061, U+0065, U+0075, U+00C6, U+00DF and U+0301, which have none in the database.
\<close>

definition ucd :: "int \<Rightarrow> string" where
  "ucd k =
     (if k = 0xE9 then ''0065 0301''
      else if k = 0xFC then ''0075 0308''
      else if k = 0x1D6 then ''00FC 0304''
      else if k = 0xA0 then ''<noBreak> 0020''
      else if k = 0xFB01 then ''<compat> 0066 0069''
      else [])"

section \<open>Columns\<close>

datatype Column = ID | SHELF | AUTHOR | TITLE | TRANSLATOR | ORIGINAL_TITLE | BORROWED | COUNT

text \<open>\<^verbatim>\<open>Column\<close> is an \<^verbatim>\<open>IntEnum\<close>: its members are used as list indices.\<close>

fun val :: "Column \<Rightarrow> nat" where
  "val ID = 0"
| "val SHELF = 1"
| "val AUTHOR = 2"
| "val TITLE = 3"
| "val TRANSLATOR = 4"
| "val ORIGINAL_TITLE = 5"
| "val BORROWED = 6"
| "val COUNT = 7"

definition COLUMN_NAMES :: "string list" where
  "COLUMN_NAMES =
     [''ID'', ''Shelf'', ''Author'', ''Title'', ''Translator'', ''Original title'', ''Borrowed'']"

definition COLUMN_ORDER :: "Column list" where
  "COLUMN_ORDER = [ID, SHELF, AUTHOR, TITLE, BORROWED, TRANSLATOR, ORIGINAL_TITLE]"

definition DISPLAYED_COLUMNS :: "string list" where
  "DISPLAYED_COLUMNS = map (\<lambda>i. COLUMN_NAMES ! val (COLUMN_ORDER ! i)) [0..<5]"

section \<open>Indexed content and search pattern\<close>

text \<open>\<^verbatim>\<open>xs[i:j]\<close> for indices that are not negative.\<close>

definition slice :: "nat \<Rightarrow> nat \<Rightarrow> 'a list \<Rightarrow> 'a list" where
  "slice i j xs = take (j - i) (drop i xs)"

text \<open>
  A field of \<open>content\<close> is a str or absent (\<^verbatim>\<open>None\<close>).  The filter \<^verbatim>\<open>if x\<close> of the
  generator keeps a field that is a non-empty str.
\<close>

definition kept :: "ustr option \<Rightarrow> ustr option" where
  "kept x = (case x of None \<Rightarrow> None | Some s \<Rightarrow> if s = [] then None else Some s)"

text \<open>
  \<^verbatim>\<open>MakeFtsContent(content)\<close>, where \<open>content\<close> holds the fields of the columns
  \<^verbatim>\<open>SHELF\<close> to \<^verbatim>\<open>BORROWED\<close> in this order.
\<close>

definition MakeFtsContent ::
  "(int \<Rightarrow> string) \<Rightarrow> cache \<Rightarrow> ustr option list \<Rightarrow> py_error + ustr \<times> cache" where
  "MakeFtsContent d m content =
     translate d m
       (join (List.map_filter kept
          (slice (val AUTHOR - val SHELF) (val ORIGINAL_TITLE + 1 - val SHELF) content)))"

text \<open>The \<^verbatim>\<open>search_pattern\<close> that \<^verbatim>\<open>Select\<close> builds from the text of the search box.\<close>

definition search_pattern ::
  "(int \<Rightarrow> string) \<Rightarrow> cache \<Rightarrow> ustr \<Rightarrow> py_error + ustr \<times> cache" where
  "search_pattern d m raw =
     translate d m (join (map (\<lambda>s. s @ [0x2A]) (split isspace raw)))"

text \<open>
  The description of the tokens as a split at every whitespace character, which leaves
  empty tokens between adjacent separators, followed by the removal of the empty tokens.
\<close>

fun split_each :: "('a \<Rightarrow> bool) \<Rightarrow> 'a list \<Rightarrow> 'a list list" where
  "split_each sp [] = [[]]"
| "split_each sp (c # cs) =
     (if sp c then [] # split_each sp cs
      else (case split_each sp cs of [] \<Rightarrow> [[c]] | t # ts \<Rightarrow> (c # t) # ts))"

definition tokens :: "ustr \<Rightarrow> ustr list" where
  "tokens raw = filter (\<lambda>t. t \<noteq> []) (split_each isspace raw)"

section \<open>The table of books and its sorting\<close>

text \<open>
  The state of the \<^verbatim>\<open>Application\<close> that sorting and searching read and write.
  Items of the tree view are named by numbers.  \<open>children\<close> is
  \<^verbatim>\<open>tree_view.get_children('')\<close>, in display order; \<open>cell a child column\<close> is
  \<^verbatim>\<open>tree_view.set(child, column)\<close>; \<open>heading a column = r\<close> says that the command
  bound to the heading of \<open>column\<close> is \<^verbatim>\<open>lambda: self.SortBy(column, r)\<close>.
  \<open>unaccented\<close> is the module-level dict \<^verbatim>\<open>UNACCENTED\<close>.
\<close>

type_synonym item = nat

record application =
  children :: "item list"
  cell :: "item \<Rightarrow> string \<Rightarrow> ustr"
  heading :: "string \<Rightarrow> bool"
  clicked_column :: string
  reverse :: bool
  search_var :: ustr
  last_search_var :: "ustr option"
  unaccented :: cache

text \<open>
  \<^verbatim>\<open>xs.sort(key=key, reverse=reverse)\<close>.  The sort is stable; a reversed sort
  reverses the list, sorts it forward and reverses the result.
\<close>

definition list_sort :: "('a \<Rightarrow> 'k::linorder) \<Rightarrow> bool \<Rightarrow> 'a list \<Rightarrow> 'a list" where
  "list_sort key r xs = (if r then rev (sort_key key (rev xs)) else sort_key key xs)"

text \<open>
  \<^verbatim>\<open>tree_view.move(item, '', i)\<close>: the item is detached and put back at position
  \<open>i\<close> among the children, at the end when \<open>i\<close> is beyond it.
\<close>

definition move :: "item \<Rightarrow> nat \<Rightarrow> item list \<Rightarrow> item list" where
  "move x i xs = (let ys = remove1 x xs in take i ys @ x # drop i ys)"

text \<open>
  \<^verbatim>\<open>SortBy(column, reverse)\<close>.  \<open>strxfrm\<close> is \<^verbatim>\<open>locale.strxfrm\<close>, a function of
  the C library and the locale: a parameter.  Its results are strings, compared as
  Python compares strings, code point by code point.  The keyboard focus, set at the
  end, is not part of the state.
\<close>

definition SortBy :: "(ustr \<Rightarrow> ustr) \<Rightarrow> string \<Rightarrow> bool \<Rightarrow> application \<Rightarrow> application" where
  "SortBy strxfrm column r a =
     (let data = map (\<lambda>child. (cell a child column, child)) (children a);
          sorted_data = list_sort (\<lambda>it. strxfrm (fst it)) r data
      in a\<lparr>children :=
             fold (\<lambda>(i, it). move (snd it) i) (enumerate 0 sorted_data) (children a),
           heading := (heading a)(column := \<not> r),
           clicked_column := column,
           reverse := r\<rparr>)"

text \<open>A click on the heading of a column runs the command bound to it.\<close>

definition click :: "(ustr \<Rightarrow> ustr) \<Rightarrow> string \<Rightarrow> application \<Rightarrow> application" where
  "click strxfrm column a = SortBy strxfrm column (heading a column) a"

text \<open>
  \<^verbatim>\<open>Select()\<close>.  The database is the parameter \<open>db\<close>: for a search pattern, the
  exception raised by the query, or the items inserted for the rows it returns together
  with their values.  \<open>Inl e\<close> is the exception \<open>e\<close> leaving \<^verbatim>\<open>Select\<close>; the state
  it leaves behind is not described.
\<close>

definition Select ::
  "(int \<Rightarrow> string) \<Rightarrow> (ustr \<Rightarrow> ustr) \<Rightarrow>
   (ustr \<Rightarrow> py_error + item list \<times> (item \<Rightarrow> string \<Rightarrow> ustr)) \<Rightarrow>
   application \<Rightarrow> py_error + application" where
  "Select d strxfrm db a =
     (if Some (search_var a) = last_search_var a then Inr a
      else
        (case search_pattern d (unaccented a) (search_var a) of
           Inl e \<Rightarrow> Inl e
         | Inr (pattern, m) \<Rightarrow>
             (case db pattern of
                Inl e \<Rightarrow> Inl e
              | Inr (rows, vals) \<Rightarrow>
                  Inr (SortBy strxfrm (clicked_column a) (reverse a)
                         (a\<lparr>last_search_var := Some (search_var a), unaccented := m,
                            children := rows, cell := vals\<rparr>)))))"

text \<open>
  The part of \<^verbatim>\<open>Application.__init__\<close> that sets this state: every heading is bound
  to an ascending sort, the clicked column is \<^verbatim>\<open>DISPLAYED_COLUMNS[Column.AUTHOR]\<close>,
  the search box is empty, and \<^verbatim>\<open>Select\<close> is called.
\<close>

definition Application_init ::
  "(int \<Rightarrow> string) \<Rightarrow> (ustr \<Rightarrow> ustr) \<Rightarrow>
   (ustr \<Rightarrow> py_error + item list \<times> (item \<Rightarrow> string \<Rightarrow> ustr)) \<Rightarrow>
   cache \<Rightarrow> py_error + application" where
  "Application_init d strxfrm db m =
     Select d strxfrm db
       \<lparr>children = [], cell = (\<lambda>child column. []), heading = (\<lambda>column. False),
        clicked_column = DISPLAYED_COLUMNS ! val AUTHOR, reverse = False,
        search_var = [], last_search_var = None, unaccented = m\<rparr>"

section \<open>Concrete inputs\<close>

text \<open>Three rows whose values are \<^verbatim>\<open>B\<close>, \<^verbatim>\<open>A\<close>, \<^verbatim>\<open>B\<close> in every column.\<close>

definition three_rows :: application where
  "three_rows =
     \<lparr>children = [1, 2, 3],
      cell = (\<lambda>child column. if child = 2 then u ''A'' else u ''B''),
      heading = (\<lambda>column. False), clicked_column = ''Author'', reverse = False,
      search_var = [], last_search_var = None, unaccented = Map.empty\<rparr>"

text \<open>
  A database of two books, whatever the pattern, and the state of the application
  started on it.
\<close>

definition two_books :: "ustr \<Rightarrow> py_error + item list \<times> (item \<Rightarrow> string \<Rightarrow> ustr)" where
  "two_books pattern =
     Inr ([1, 2],
          (\<lambda>child column.
             if column = ''Author'' then (if child = 1 then u ''A'' else u ''B'')
             else if column = ''Title'' then (if child = 1 then u ''X'' else u ''Y'')
             else []))"

definition started :: application where
  "started =
     \<lparr>children = [1, 2],
      cell = (\<lambda>child column.
             if column = ''Author'' then (if child = 1 then u ''A'' else u ''B'')
             else if column = ''Title'' then (if child = 1 then u ''X'' else u ''Y'')
             else []),
      heading = (\<lambda>column. False)(''Author'' := True),
      clicked_column = ''Author'', reverse = False,
      search_var = [], last_search_var = Some [], unaccented = Map.empty\<rparr>"

text \<open>
  The try block of \<^verbatim>\<open>__missing__\<close> on its own: the first field of a decomposition
  text read as a hexadecimal number, \<open>None\<close> when there is no field or it is not a
  number.
\<close>

definition first_component :: "string \<Rightarrow> int option" where
  "first_component de =
     (case split1 (\<lambda>c. isspace (of_char c)) de of [] \<Rightarrow> None | t # _ \<Rightarrow> int16 t)"

text \<open>
  The resolution order as the specification words it, for comparison with
  \<open>replacement\<close>: first the override table; otherwise, for a code point with a
  decomposition, the first decomposed component, that is the first code point of the
  decomposition mapping, which in the database follows the formatting tag
  \<^verbatim>\<open><...>\<close> of a compatibility decomposition; otherwise the code point itself.
\<close>

definition is_tag :: "string \<Rightarrow> bool" where
  "is_tag t = (case t of [] \<Rightarrow> False | c # _ \<Rightarrow> c = CHR ''<'')"

definition spec_first_component :: "string \<Rightarrow> int option" where
  "spec_first_component de =
     (case filter (\<lambda>t. \<not> is_tag t) (split (\<lambda>c. isspace (of_char c)) de) of
        [] \<Rightarrow> None
      | t # _ \<Rightarrow> int16 t)"

definition spec_replacement :: "(int \<Rightarrow> string) \<Rightarrow> int \<Rightarrow> repl" where
  "spec_replacement d key =
     (case map_of CHAR_REPLACEMENT key of
        Some s \<Rightarrow> PyStr s
      | None \<Rightarrow>
          (case spec_first_component (d key) of
             Some v \<Rightarrow> PyInt v
           | None \<Rightarrow> PyInt key))"

section \<open>The cache and the folding functions\<close>

declare split.simps [simp del]

lemma cache_ok_empty: "cache_ok d Map.empty"
  by (simp add: cache_ok_def)

lemma cache_ok_upd: "cache_ok d m \<Longrightarrow> replacement d key = Inr ch \<Longrightarrow> cache_ok d (m(key \<mapsto> ch))"
  by (simp add: cache_ok_def)

lemma getitem_cache_ok:
  assumes "cache_ok d m"
  shows "getitem d m key =
           (case replacement d key of Inl e \<Rightarrow> Inl e | Inr ch \<Rightarrow> Inr (ch, m(key \<mapsto> ch)))"
proof (cases "m key")
  case None
  then show ?thesis by (simp add: getitem_def missing_def)
next
  case (Some ch)
  with assms have "replacement d key = Inr ch" by (simp add: cache_ok_def)
  moreover from Some have "m(key \<mapsto> ch) = m" by (simp add: fun_upd_idem)
  ultimately show ?thesis using Some by (simp add: getitem_def)
qed

lemma translate_cache_ok:
  "cache_ok d m \<Longrightarrow> translate d m s = Inr (r, m') \<Longrightarrow> cache_ok d m'"
proof (induction s arbitrary: m r)
  case Nil
  then show ?case by simp
next
  case (Cons c cs)
  from Cons.prems show ?case
    by (auto simp: getitem_cache_ok split: sum.splits prod.splits
             intro: Cons.IH cache_ok_upd)
qed

lemma translate_FoldText: "cache_ok d m \<Longrightarrow> text_of (translate d m s) = FoldText d s"
proof (induction s arbitrary: m)
  case Nil
  then show ?case by (simp add: text_of_def)
next
  case (Cons c cs)
  show ?case
  proof (cases "replacement d c")
    case (Inl e)
    with Cons.prems show ?thesis by (simp add: getitem_cache_ok text_of_def Fold_def)
  next
    case (Inr x)
    with Cons.prems have ok: "cache_ok d (m(c \<mapsto> x))" by (rule cache_ok_upd)
    have ih: "text_of (translate d (m(c \<mapsto> x)) cs) = FoldText d cs"
      using ok by (rule Cons.IH)
    have g: "getitem d m c = Inr (x, m(c \<mapsto> x))"
      using Cons.prems Inr by (simp add: getitem_cache_ok)
    show ?thesis
    proof (cases "chars_of x")
      case (Inl e)
      with g Inr show ?thesis by (simp add: text_of_def Fold_def)
    next
      case t: (Inr t)
      show ?thesis
      proof (cases "translate d (m(c \<mapsto> x)) cs")
        case (Inl e)
        with ih have "FoldText d cs = Inl e" by (simp add: text_of_def)
        with g Inr t Inl show ?thesis by (simp add: text_of_def Fold_def)
      next
        case r: (Inr p)
        obtain r' m2 where p: "p = (r', m2)" by (cases p)
        with ih r have "FoldText d cs = Inr r'" by (simp add: text_of_def)
        with g Inr t r p show ?thesis by (simp add: text_of_def Fold_def)
      qed
    qed
  qed
qed

section \<open>Single code points\<close>

lemma replacement_no_decomposition:
  "0 \<le> key \<Longrightarrow> key < 0x110000 \<Longrightarrow> d key = [] \<Longrightarrow>
   replacement d key =
     Inr (case map_of CHAR_REPLACEMENT key of None \<Rightarrow> PyInt key | Some s \<Rightarrow> PyStr s)"
  by (simp add: replacement_def chr_def split: option.splits)

lemma Fold_AE: "d 0xC6 = [] \<Longrightarrow> Fold d 0xC6 = Inr (u ''AE'')"
  by (simp add: Fold_def replacement_no_decomposition CHAR_REPLACEMENT_def chars_of_def)

lemma Fold_ss: "d 0xDF = [] \<Longrightarrow> Fold d 0xDF = Inr (u ''ss'')"
  by (simp add: Fold_def replacement_no_decomposition CHAR_REPLACEMENT_def chars_of_def)

lemma Fold_a: "d 0x61 = [] \<Longrightarrow> Fold d 0x61 = Inr (u ''a'')"
  by (simp add: Fold_def replacement_no_decomposition CHAR_REPLACEMENT_def chars_of_def u_def)

lemma Fold_e_acute: "d 0xE9 = ''0065 0301'' \<Longrightarrow> Fold d 0xE9 = Inr (u ''e'')"
  by (simp add: Fold_def replacement_def chr_def split1_def isspace_def int16_def
      digit_value_def chars_of_def u_def)

text \<open>
  Claim C7.  Known mappings of the text folder: on a cache written by
  \<^verbatim>\<open>__missing__\<close> only, and with a decomposition table that has the entries of the
  Unicode database for these four characters (none for U+00C6, U+00DF and U+0061,
  \<^verbatim>\<open>0065 0301\<close> for U+00E9), translating U+00C6 gives \<^verbatim>\<open>AE\<close>, U+00DF gives
  \<^verbatim>\<open>ss\<close>, U+00E9 gives \<^verbatim>\<open>e\<close> and \<^verbatim>\<open>a\<close> gives \<^verbatim>\<open>a\<close>.
\<close>

theorem known_mappings:
  assumes "cache_ok d m"
    and "d 0xC6 = []" and "d 0xDF = []" and "d 0xE9 = ''0065 0301''" and "d 0x61 = []"
  shows "text_of (translate d m [0xC6]) = Inr (u ''AE'') \<and>
         text_of (translate d m [0xDF]) = Inr (u ''ss'') \<and>
         text_of (translate d m [0xE9]) = Inr (u ''e'') \<and>
         text_of (translate d m [0x61]) = Inr (u ''a'')"
proof -
  have t: "text_of (translate d m s) = FoldText d s" for s
    using assms(1) by (rule translate_FoldText)
  show ?thesis
    unfolding t using assms(2-5) by (simp add: Fold_AE Fold_ss Fold_a Fold_e_acute)
qed

theorem known_mappings_witness:
  "cache_ok ucd Map.empty \<and> ucd 0xC6 = [] \<and> ucd 0xDF = [] \<and>
   ucd 0xE9 = ''0065 0301'' \<and> ucd 0x61 = [] \<and>
   text_of (translate ucd Map.empty [0xC6]) = Inr (u ''AE'') \<and>
   text_of (translate ucd Map.empty [0xDF]) = Inr (u ''ss'') \<and>
   text_of (translate ucd Map.empty [0xE9]) = Inr (u ''e'') \<and>
   text_of (translate ucd Map.empty [0x61]) = Inr (u ''a'')"
proof -
  have ok: "cache_ok ucd Map.empty" by (simp add: cache_ok_def)
  have tab: "ucd 0xC6 = []" "ucd 0xDF = []" "ucd 0xE9 = ''0065 0301''" "ucd 0x61 = []"
    by (simp_all add: ucd_def)
  from known_mappings [OF ok tab] ok tab show ?thesis by simp
qed

section \<open>Sorting\<close>

lemma move_front:
  assumes "x \<notin> set p"
  shows "move x (length p) (p @ r) = p @ x # remove1 x r"
  using assms by (simp add: move_def remove1_append)

lemma move_loop:
  "distinct (p @ map snd t) \<Longrightarrow> distinct r \<Longrightarrow> set r = set (map snd t) \<Longrightarrow>
   fold (\<lambda>(i, it). move (snd it) i) (enumerate (length p) t) (p @ r) = p @ map snd t"
proof (induction t arbitrary: p r)
  case Nil
  then show ?case by simp
next
  case (Cons it t)
  let ?x = "snd it"
  from Cons.prems(1) have xp: "?x \<notin> set p" by auto
  have step: "move ?x (length p) (p @ r) = (p @ [?x]) @ remove1 ?x r"
    using xp by (simp add: move_front)
  have d1: "distinct ((p @ [?x]) @ map snd t)" using Cons.prems(1) by auto
  have d2: "distinct (remove1 ?x r)" using Cons.prems(2) by simp
  have "set (remove1 ?x r) = set r - {?x}" using Cons.prems(2) by simp
  also have "\<dots> = set (map snd t)" using Cons.prems(1,3) by auto
  finally have s: "set (remove1 ?x r) = set (map snd t)" .
  have "fold (\<lambda>(i, it). move (snd it) i) (enumerate (length (p @ [?x])) t)
          ((p @ [?x]) @ remove1 ?x r) = (p @ [?x]) @ map snd t"
    using d1 d2 s by (rule Cons.IH)
  then show ?case using step by simp
qed

lemma insort_key_map:
  "insort_key k (g x) (map g xs) = map g (insort_key (\<lambda>y. k (g y)) x xs)"
  by (induction xs) simp_all

lemma sort_key_map: "sort_key k (map g xs) = map g (sort_key (\<lambda>y. k (g y)) xs)"
  by (induction xs) (simp_all add: insort_key_map)

lemma list_sort_map: "list_sort k r (map g xs) = map g (list_sort (\<lambda>y. k (g y)) r xs)"
  by (simp add: list_sort_def sort_key_map rev_map)

lemma set_list_sort [simp]: "set (list_sort k r xs) = set xs"
  by (simp add: list_sort_def)

lemma distinct_list_sort [simp]: "distinct (list_sort k r xs) = distinct xs"
  by (simp add: list_sort_def)

lemma length_list_sort [simp]: "length (list_sort k r xs) = length xs"
  by (simp add: list_sort_def)

lemma list_sort_stable:
  "filter (\<lambda>y. k y = v) (list_sort k r xs) = filter (\<lambda>y. k y = v) xs"
  by (simp add: list_sort_def sort_key_stable rev_filter [symmetric])

lemma list_sort_sorted:
  "sorted (map k (if r then rev (list_sort k r xs) else list_sort k r xs))"
proof (cases r)
  case True
  then show ?thesis by (simp add: list_sort_def)
next
  case False
  then show ?thesis by (simp add: list_sort_def)
qed

lemma SortBy_children:
  assumes "distinct (children a)"
  shows "children (SortBy strxfrm column r a) =
           list_sort (\<lambda>child. strxfrm (cell a child column)) r (children a)"
proof -
  let ?g = "\<lambda>child. (cell a child column, child)"
  let ?t = "list_sort (\<lambda>it. strxfrm (fst it)) r (map ?g (children a))"
  let ?s = "list_sort (\<lambda>child. strxfrm (cell a child column)) r (children a)"
  have t: "?t = map ?g ?s" by (simp add: list_sort_map)
  then have ms: "map snd ?t = ?s" by (simp add: comp_def)
  have "fold (\<lambda>(i, it). move (snd it) i) (enumerate (length ([]::item list)) ?t)
          ([] @ children a) = [] @ map snd ?t"
    using assms by (intro move_loop) (simp_all add: ms comp_def)
  then show ?thesis by (simp add: SortBy_def Let_def ms)
qed


lemma SortBy_fields [simp]:
  "clicked_column (SortBy f c r a) = c"
  "reverse (SortBy f c r a) = r"
  "heading (SortBy f c r a) = (heading a)(c := \<not> r)"
  "cell (SortBy f c r a) = cell a"
  "search_var (SortBy f c r a) = search_var a"
  "last_search_var (SortBy f c r a) = last_search_var a"
  "unaccented (SortBy f c r a) = unaccented a"
  by (simp_all add: SortBy_def Let_def)

lemma DISPLAYED_COLUMNS_eq:
  "DISPLAYED_COLUMNS = [''ID'', ''Shelf'', ''Author'', ''Title'', ''Borrowed'']"
  by (simp add: DISPLAYED_COLUMNS_def COLUMN_NAMES_def COLUMN_ORDER_def upt_rec)

lemma translate_Nil_text: "search_pattern d m [] = Inr ([], m)"
  by (simp add: search_pattern_def split.simps)

text \<open>
  Claim C6.  \<^verbatim>\<open>SortBy\<close> is a stable sort by the \<^verbatim>\<open>strxfrm\<close> key of the column:
  the rows whose keys are equal keep their relative order, in both directions; the rows
  end up in ascending key order, or in descending order for a reversed sort; the rows and
  their values are the same.  In particular the rows 1, 2, 3 with the values \<^verbatim>\<open>B\<close>,
  \<^verbatim>\<open>A\<close>, \<^verbatim>\<open>B\<close>, where \<^verbatim>\<open>A\<close> collates before \<^verbatim>\<open>B\<close>, are sorted ascending into
  2, 1, 3.
\<close>

theorem SortBy_stable:
  assumes "distinct (children a)"
  shows "(\<forall>k. filter (\<lambda>i. strxfrm (cell a i c) = k) (children (SortBy strxfrm c r a)) =
              filter (\<lambda>i. strxfrm (cell a i c) = k) (children a)) \<and>
         sorted (map (\<lambda>i. strxfrm (cell a i c))
           (if r then rev (children (SortBy strxfrm c r a))
            else children (SortBy strxfrm c r a))) \<and>
         set (children (SortBy strxfrm c r a)) = set (children a) \<and>
         distinct (children (SortBy strxfrm c r a)) \<and>
         cell (SortBy strxfrm c r a) = cell a \<and>
         (children a = [1, 2, 3] \<and> cell a 1 c = u ''B'' \<and> cell a 2 c = u ''A'' \<and>
          cell a 3 c = u ''B'' \<and> strxfrm (u ''A'') < strxfrm (u ''B'') \<and> \<not> r \<longrightarrow>
          children (SortBy strxfrm c r a) = [2, 1, 3])"
proof -
  let ?k = "\<lambda>i. strxfrm (cell a i c)"
  have ch: "children (SortBy strxfrm c r a) = list_sort ?k r (children a)"
    using assms by (rule SortBy_children)
  have stable: "\<forall>k. filter (\<lambda>i. ?k i = k) (children (SortBy strxfrm c r a)) =
                    filter (\<lambda>i. ?k i = k) (children a)"
    unfolding ch by (simp add: list_sort_stable)
  have srt: "sorted (map ?k (if r then rev (children (SortBy strxfrm c r a))
                             else children (SortBy strxfrm c r a)))"
    unfolding ch by (rule list_sort_sorted)
  have ex: "children (SortBy strxfrm c r a) = [2, 1, 3]"
    if "children a = [1, 2, 3]" "cell a 1 c = u ''B''" "cell a 2 c = u ''A''"
       "cell a 3 c = u ''B''" "strxfrm (u ''A'') < strxfrm (u ''B'')" "\<not> r"
    unfolding ch using that by (auto simp add: list_sort_def)
  show ?thesis
    using stable srt ex assms by (simp add: ch)
qed

theorem SortBy_stable_witness:
  "distinct (children three_rows) \<and> children three_rows = [1, 2, 3] \<and>
   cell three_rows 1 ''Title'' = u ''B'' \<and> cell three_rows 2 ''Title'' = u ''A'' \<and>
   cell three_rows 3 ''Title'' = u ''B'' \<and> id (u ''A'') < id (u ''B'') \<and>
   children (SortBy id ''Title'' False three_rows) = [2, 1, 3] \<and>
   filter (\<lambda>i. id (cell three_rows i ''Title'') = u ''B'')
     (children (SortBy id ''Title'' False three_rows)) = [1, 3]"
proof -
  have d: "distinct (children three_rows)" by (simp add: three_rows_def)
  have f: "children three_rows = [1, 2, 3]" "cell three_rows 1 ''Title'' = u ''B''"
    "cell three_rows 2 ''Title'' = u ''A''" "cell three_rows 3 ''Title'' = u ''B''"
    "id (u ''A'') < id (u ''B'')"
    by (simp_all add: three_rows_def u_def)
  from SortBy_stable [OF d, of id "''Title''" False] f d show ?thesis
    by (simp add: three_rows_def)
qed

section \<open>The sort toggle\<close>

lemma init_two_books: "Application_init ucd id two_books Map.empty = Inr started"
  by (simp add: Application_init_def Select_def translate_Nil_text two_books_def
      started_def DISPLAYED_COLUMNS_eq SortBy_def list_sort_def move_def u_def
      enumerate_eq_zip upt_rec)

lemma Select_refresh:
  assumes "Some (search_var a) \<noteq> last_search_var a"
    and "search_pattern d (unaccented a) (search_var a) = Inr (pattern, m)"
    and "db pattern = Inr (rows, vals)"
  shows "Select d f db a =
           Inr (SortBy f (clicked_column a) (reverse a)
                  (a\<lparr>last_search_var := Some (search_var a), unaccented := m,
                     children := rows, cell := vals\<rparr>))"
  using assms by (simp add: Select_def)

lemma Select_remembers:
  assumes "Select d f db a = Inr a'"
  shows "clicked_column a' = clicked_column a \<and> reverse a' = reverse a"
  using assms by (auto simp add: Select_def split: if_splits sum.splits prod.splits)

text \<open>
  Against claim C2 as stated: after the start-up on two books the view is sorted by
  Author, ascending.  A click on Title sorts by Title, ascending.  A click on Author, now
  a different column from the last-sorted one, sorts by Author descending (the rows
  come out as 2, 1), not ascending: the heading of Author kept the direction that the
  start-up sort had stored in it.
\<close>

theorem sort_toggle_counterexample:
  "Application_init ucd id two_books Map.empty = Inr started \<and>
   clicked_column (click id ''Title'' started) = ''Title'' \<and>
   reverse (click id ''Title'' started) = False \<and>
   children (click id ''Title'' started) = [1, 2] \<and>
   ''Author'' \<noteq> clicked_column (click id ''Title'' started) \<and>
   reverse (click id ''Author'' (click id ''Title'' started)) = True \<and>
   children (click id ''Author'' (click id ''Title'' started)) = [2, 1]"
proof -
  note i = init_two_books
  have d: "distinct (children started)" by (simp add: started_def)
  have c1: "children (click id ''Title'' started) = [1, 2]"
    by (simp add: click_def SortBy_children [OF d]) (simp add: started_def list_sort_def u_def)
  have d1: "distinct (children (click id ''Title'' started))" by (simp add: c1)
  have c2: "children (click id ''Author'' (click id ''Title'' started)) = [2, 1]"
    by (simp add: click_def [of id "''Author''"] SortBy_children [OF d1] c1)
       (simp add: click_def started_def list_sort_def u_def)
  show ?thesis using i c1 c2 by (simp add: click_def started_def)
qed


text \<open>
  Claim C2, amended.  \<^verbatim>\<open>SortBy\<close> remembers the column and the direction, and a
  refresh (\<^verbatim>\<open>Select\<close>) keeps them and sorts the new rows by them.  Every heading
  keeps its own next direction: a sort of a column stores the opposite direction in the
  heading of that column and leaves the headings of the other columns as they are.  So a
  click on the heading of the last-sorted column flips the direction, and a click on the
  heading of a different column sorts that column in the direction stored in its own
  heading.  At start-up every heading stores ascending, and the first sort, by Author
  ascending, stores descending in the heading of Author.
\<close>

theorem sort_toggle:
  "clicked_column (SortBy f c r a) = c \<and> reverse (SortBy f c r a) = r \<and>
   heading (SortBy f c r a) c = (\<not> r) \<and>
   (\<forall>c'. c' \<noteq> c \<longrightarrow> heading (SortBy f c r a) c' = heading a c') \<and>
   click f c (SortBy f c r a) = SortBy f c (\<not> r) (SortBy f c r a) \<and>
   (\<forall>c'. c' \<noteq> c \<longrightarrow>
      click f c' (SortBy f c r a) = SortBy f c' (heading a c') (SortBy f c r a)) \<and>
   (\<forall>a'. Select d f db a = Inr a' \<longrightarrow>
      clicked_column a' = clicked_column a \<and> reverse a' = reverse a) \<and>
   (\<forall>pattern m1 rows vals.
      Some (search_var a) \<noteq> last_search_var a \<and>
      search_pattern d (unaccented a) (search_var a) = Inr (pattern, m1) \<and>
      db pattern = Inr (rows, vals) \<and> distinct rows \<longrightarrow>
      (\<exists>a'. Select d f db a = Inr a' \<and>
         children a' = list_sort (\<lambda>i. f (vals i (clicked_column a))) (reverse a) rows \<and>
         heading a' (clicked_column a') = (\<not> reverse a'))) \<and>
   (\<forall>a0. Application_init d f db m = Inr a0 \<longrightarrow>
      clicked_column a0 = ''Author'' \<and> reverse a0 = False \<and>
      heading a0 = (\<lambda>column. False)(''Author'' := True))"
proof -
  have refresh: "\<exists>a'. Select d f db a = Inr a' \<and>
         children a' = list_sort (\<lambda>i. f (vals i (clicked_column a))) (reverse a) rows \<and>
         heading a' (clicked_column a') = (\<not> reverse a')"
    if "Some (search_var a) \<noteq> last_search_var a"
      "search_pattern d (unaccented a) (search_var a) = Inr (pattern, m1)"
      "db pattern = Inr (rows, vals)" "distinct rows" for pattern m1 rows vals
  proof -
    let ?b = "a\<lparr>last_search_var := Some (search_var a), unaccented := m1,
                 children := rows, cell := vals\<rparr>"
    have "distinct (children ?b)" using that(4) by simp
    then have "children (SortBy f (clicked_column a) (reverse a) ?b) =
                 list_sort (\<lambda>i. f (cell ?b i (clicked_column a))) (reverse a) (children ?b)"
      by (rule SortBy_children)
    moreover have "Select d f db a = Inr (SortBy f (clicked_column a) (reverse a) ?b)"
      using that(1-3) by (rule Select_refresh)
    ultimately show ?thesis by simp
  qed
  have init: "clicked_column a0 = ''Author'' \<and> reverse a0 = False \<and>
      heading a0 = (\<lambda>column. False)(''Author'' := True)"
    if "Application_init d f db m = Inr a0" for a0
    using that
    by (auto simp add: Application_init_def Select_def DISPLAYED_COLUMNS_eq
        split: sum.splits prod.splits)
  show ?thesis
    using refresh init Select_remembers [of d f db a]
    by (simp add: click_def)
qed


theorem sort_toggle_witness:
  "''Author'' \<noteq> ''Title'' \<and>
   Some (search_var (started\<lparr>last_search_var := None\<rparr>)) \<noteq>
     last_search_var (started\<lparr>last_search_var := None\<rparr>) \<and>
   search_pattern ucd (unaccented (started\<lparr>last_search_var := None\<rparr>))
     (search_var (started\<lparr>last_search_var := None\<rparr>)) = Inr ([], Map.empty) \<and>
   (\<exists>vals. two_books [] = Inr ([1, 2], vals)) \<and> distinct [1::item, 2] \<and>
   Application_init ucd id two_books Map.empty = Inr started \<and>
   heading started = (\<lambda>column. False)(''Author'' := True) \<and>
   click id ''Author'' (SortBy id ''Title'' False (started\<lparr>last_search_var := None\<rparr>)) =
     SortBy id ''Author'' True (SortBy id ''Title'' False (started\<lparr>last_search_var := None\<rparr>)) \<and>
   (\<exists>a'. Select ucd id two_books (started\<lparr>last_search_var := None\<rparr>) = Inr a' \<and>
      clicked_column a' = ''Author'' \<and> reverse a' = False \<and> children a' = [1, 2])"
proof -
  let ?a = "started\<lparr>last_search_var := None\<rparr>"
  note t = sort_toggle [where f = id and c = "''Title''" and r = False and a = ?a
      and d = ucd and db = two_books and m = Map.empty]
  have h1: "''Author'' \<noteq> ''Title''" by simp
  have h2: "Some (search_var ?a) \<noteq> last_search_var ?a" by simp
  have h3: "search_pattern ucd (unaccented ?a) (search_var ?a) = Inr ([], Map.empty)"
    by (simp add: started_def translate_Nil_text)
  obtain vals where h4: "two_books [] = Inr ([1, 2], vals)"
    and vals: "vals 1 ''Author'' = u ''A''" "vals 2 ''Author'' = u ''B''"
    by (simp add: two_books_def)
  have h5: "distinct [1::item, 2]" by simp
  have h6: "Application_init ucd id two_books Map.empty = Inr started"
    by (rule init_two_books)
  note t6 = t [THEN conjunct2, THEN conjunct2, THEN conjunct2, THEN conjunct2,
      THEN conjunct2, THEN conjunct1, rule_format]
  note t7 = t [THEN conjunct2, THEN conjunct2, THEN conjunct2, THEN conjunct2,
      THEN conjunct2, THEN conjunct2, THEN conjunct1, rule_format]
  note t8 = t [THEN conjunct2, THEN conjunct2, THEN conjunct2, THEN conjunct2,
      THEN conjunct2, THEN conjunct2, THEN conjunct2, THEN conjunct1, rule_format]
  note t9 = t [THEN conjunct2, THEN conjunct2, THEN conjunct2, THEN conjunct2,
      THEN conjunct2, THEN conjunct2, THEN conjunct2, THEN conjunct2, rule_format]
  from t9 [OF h6] have c6: "heading started = (\<lambda>column. False)(''Author'' := True)"
    by simp
  from t6 [OF h1] have c7: "click id ''Author'' (SortBy id ''Title'' False ?a) =
     SortBy id ''Author'' (heading ?a ''Author'') (SortBy id ''Title'' False ?a)" .
  have "\<exists>a'. Select ucd id two_books ?a = Inr a' \<and>
      children a' = list_sort (\<lambda>i. id (vals i (clicked_column ?a))) (reverse ?a) [1, 2] \<and>
      heading a' (clicked_column a') = (\<not> reverse a')"
    using h2 h3 h4 h5 by (intro t8) simp
  then obtain a' where a': "Select ucd id two_books ?a = Inr a'"
    "children a' = list_sort (\<lambda>i. id (vals i (clicked_column ?a))) (reverse ?a) [1, 2]"
    by (elim exE conjE)
  from t7 [OF a'(1)] have r: "clicked_column a' = clicked_column ?a \<and> reverse a' = reverse ?a" .
  have ch: "children a' = [1, 2]"
    using a'(2) vals by (simp add: started_def list_sort_def u_def)
  have c8: "\<exists>a'. Select ucd id two_books ?a = Inr a' \<and>
      clicked_column a' = ''Author'' \<and> reverse a' = False \<and> children a' = [1, 2]"
    using a'(1) r ch by (intro exI [of _ a']) (simp add: started_def)
  have c7': "click id ''Author'' (SortBy id ''Title'' False ?a) =
     SortBy id ''Author'' True (SortBy id ''Title'' False ?a)"
    using c7 by (simp add: started_def)
  have h4': "\<exists>vals. two_books [] = Inr ([1, 2], vals)" using h4 by blast
  show ?thesis
    using h1 h2 h3 h4' h5 h6 c6 c7' c8 by (intro conjI)
qed

section \<open>Search pattern and indexed content\<close>

lemma split_Nil [simp]: "split sp [] = []"
  by (simp add: split.simps)

lemma split_Cons:
  "split sp (c # cs) =
     (if sp c then split sp cs
      else (c # takeWhile (\<lambda>c. \<not> sp c) cs) # split sp (dropWhile (\<lambda>c. \<not> sp c) cs))"
proof (cases "sp c")
  case True
  then show ?thesis by (subst split.simps, subst (2) split.simps) simp
next
  case False
  then show ?thesis by (subst split.simps) simp
qed

lemma split_all_space: "\<forall>c\<in>set s. sp c \<Longrightarrow> split sp s = []"
  by (induction s) (simp_all add: split_Cons)

lemma split_each_not_Nil [simp]: "split_each sp s \<noteq> []"
  by (induction s) (auto split: list.splits)

lemma split_each_run:
  "split_each sp s =
     takeWhile (\<lambda>c. \<not> sp c) s #
       (case dropWhile (\<lambda>c. \<not> sp c) s of [] \<Rightarrow> [] | x # r \<Rightarrow> split_each sp r)"
  by (induction s) (auto split: list.splits)

lemma split_eq_split_each: "split sp s = filter (\<lambda>t. t \<noteq> []) (split_each sp s)"
proof (induction s rule: length_induct)
  case (1 s)
  show ?case
  proof (cases s)
    case Nil
    then show ?thesis by simp
  next
    case (Cons c cs)
    show ?thesis
    proof (cases "sp c")
      case True
      with Cons 1 show ?thesis by (simp add: split_Cons)
    next
      case False
      let ?r = "dropWhile (\<lambda>c. \<not> sp c) cs"
      have len: "length ?r < length s" using Cons
        by (simp add: length_dropWhile_le le_imp_less_Suc)
      have ih: "split sp ?r = filter (\<lambda>t. t \<noteq> []) (split_each sp ?r)"
        using 1 len by blast
      have e: "split_each sp s =
                 (c # takeWhile (\<lambda>c. \<not> sp c) cs) #
                   (case ?r of [] \<Rightarrow> [] | x # r \<Rightarrow> split_each sp r)"
        using Cons False by (subst split_each_run) simp
      show ?thesis
      proof (cases ?r)
        case Nil
        have "split sp ?r = []" by (simp only: Nil split_Nil)
        moreover have "split_each sp s = [c # takeWhile (\<lambda>c. \<not> sp c) cs]"
          using e by (simp only: Nil list.case)
        ultimately show ?thesis using Cons False by (simp add: split_Cons)
      next
        case r: (Cons x r)
        then have "sp x" using hd_dropWhile [of "\<lambda>c. \<not> sp c" cs] by auto
        with r have "filter (\<lambda>t. t \<noteq> []) (split_each sp ?r) =
                       filter (\<lambda>t. t \<noteq> []) (split_each sp r)" by simp
        with ih r e Cons False show ?thesis by (simp add: split_Cons)
      qed
    qed
  qed
qed

lemma concat_split_each: "concat (split_each sp s) = filter (\<lambda>c. \<not> sp c) s"
  by (induction s) (auto split: list.splits)

lemma concat_filter_nonempty: "concat (filter (\<lambda>t. t \<noteq> []) xs) = concat xs"
  by (induction xs) auto

lemma split_each_no_sep: "\<forall>t\<in>set (split_each sp s). \<forall>c\<in>set t. \<not> sp c"
  by (induction s) (auto split: list.splits)

lemma split_Jane_Doe: "split isspace (u ''Jane  Doe'') = [u ''Jane'', u ''Doe'']"
  by (simp add: u_def isspace_def split_Cons)


lemma split_isspace_tokens: "split isspace raw = tokens raw"
  by (simp add: tokens_def split_eq_split_each)

text \<open>
  Claim C4.  The search pattern is the translation of the joined expression: the raw
  text is split at whitespace into tokens, the empty tokens are discarded (so every
  token is non-empty and free of whitespace, and the tokens, in order, are the
  non-whitespace characters of the raw text), \<^verbatim>\<open>*\<close> is appended to each token, the
  results are joined with single spaces, and the whole is translated afterwards.
  In particular the pattern of \<^verbatim>\<open>Jane  Doe\<close> is the translation of
  \<^verbatim>\<open>Jane* Doe*\<close>.
\<close>

theorem search_pattern_tokens:
  "search_pattern d m raw = translate d m (join (map (\<lambda>t. t @ u ''*'') (tokens raw))) \<and>
   (\<forall>t\<in>set (tokens raw). t \<noteq> [] \<and> (\<forall>c\<in>set t. \<not> isspace c)) \<and>
   concat (tokens raw) = filter (\<lambda>c. \<not> isspace c) raw \<and>
   search_pattern d m (u ''Jane  Doe'') = translate d m (u ''Jane* Doe*'')"
proof -
  have a: "search_pattern d m raw = translate d m (join (map (\<lambda>t. t @ u ''*'') (tokens raw)))"
    by (simp add: search_pattern_def split_isspace_tokens u_def)
  have b: "\<forall>t\<in>set (tokens raw). t \<noteq> [] \<and> (\<forall>c\<in>set t. \<not> isspace c)"
    using split_each_no_sep [of isspace raw] by (auto simp add: tokens_def)
  have c: "concat (tokens raw) = filter (\<lambda>c. \<not> isspace c) raw"
    by (simp add: tokens_def concat_filter_nonempty concat_split_each)
  have e: "search_pattern d m (u ''Jane  Doe'') = translate d m (u ''Jane* Doe*'')"
    by (simp add: search_pattern_def split_Jane_Doe) (simp add: u_def)
  from a b c e show ?thesis by (intro conjI)
qed

theorem search_pattern_tokens_witness:
  "tokens (u ''Jane  Doe'') = [u ''Jane'', u ''Doe''] \<and>
   u ''Jane'' \<noteq> [] \<and> \<not> isspace 0x4A \<and> \<not> isspace 0x61 \<and> \<not> isspace 0x6E \<and>
   \<not> isspace 0x65 \<and>
   text_of (search_pattern ucd Map.empty (u ''Jane  Doe'')) = FoldText ucd (u ''Jane* Doe*'')"
proof -
  note t = search_pattern_tokens [of ucd Map.empty "u ''Jane  Doe''"]
  have tk: "tokens (u ''Jane  Doe'') = [u ''Jane'', u ''Doe'']"
    using split_Jane_Doe by (simp add: split_isspace_tokens)
  from t have "\<forall>t\<in>set (tokens (u ''Jane  Doe'')). t \<noteq> [] \<and> (\<forall>c\<in>set t. \<not> isspace c)"
    by (elim conjE)
  with tk have j: "u ''Jane'' \<noteq> [] \<and> \<not> isspace 0x4A \<and> \<not> isspace 0x61 \<and>
      \<not> isspace 0x6E \<and> \<not> isspace 0x65"
    by (simp add: u_def)
  from t have "search_pattern ucd Map.empty (u ''Jane  Doe'') =
                 translate ucd Map.empty (u ''Jane* Doe*'')"
    by (elim conjE)
  then have "text_of (search_pattern ucd Map.empty (u ''Jane  Doe'')) =
               FoldText ucd (u ''Jane* Doe*'')"
    by (simp add: translate_FoldText cache_ok_empty)
  with tk j show ?thesis by (intro conjI) simp_all
qed

text \<open>
  Claim C8.  For the empty text and for a text of whitespace only (for instance three
  spaces) there are no tokens, and the search pattern is the join of no tokens, the empty
  string; the cache is left as it was.
\<close>

theorem search_pattern_empty:
  "search_pattern d m [] = Inr ([], m) \<and>
   ((\<forall>c\<in>set raw. isspace c) \<longrightarrow> tokens raw = [] \<and> search_pattern d m raw = Inr ([], m)) \<and>
   search_pattern d m (u ''   '') = Inr ([], m)"
proof -
  have a: "tokens raw = [] \<and> search_pattern d m raw = Inr ([], m)"
    if "\<forall>c\<in>set raw. isspace c" for raw
    using split_all_space [OF that]
    by (simp add: search_pattern_def split_isspace_tokens [symmetric])
  have "\<forall>c\<in>set (u ''   ''). isspace c" by (simp add: u_def isspace_def)
  then have b: "search_pattern d m (u ''   '') = Inr ([], m)" using a by blast
  from a [of raw] a [of "[]"] b show ?thesis by simp
qed

theorem search_pattern_empty_witness:
  "isspace 0x20 \<and> isspace 0x09 \<and> isspace 0xA0 \<and> tokens [0x20, 0x09, 0xA0] = [] \<and>
   search_pattern ucd Map.empty [0x20, 0x09, 0xA0] = Inr ([], Map.empty)"
proof -
  have h: "\<forall>c\<in>set [0x20, 0x09, 0xA0]. isspace c" by (simp add: isspace_def)
  from search_pattern_empty [of ucd Map.empty "[0x20, 0x09, 0xA0]"] h show ?thesis
    by simp
qed

lemma map_filter_kept:
  "List.map_filter kept fs =
     map the (filter (\<lambda>x. x \<noteq> None \<and> x \<noteq> Some []) fs)"
  by (induction fs) (auto simp add: kept_def split: option.splits)

text \<open>
  Claim C5.  \<^verbatim>\<open>MakeFtsContent\<close> receives the fields of a record from the shelf on;
  of the four fields after the shelf (author, title, translator, original title) it drops
  the absent and the empty ones, joins the others in order with single spaces and
  translates the result.  In particular the fields \<^verbatim>\<open>Lem\<close>, \<^verbatim>\<open>Solaris\<close>, empty,
  \<^verbatim>\<open>Original\<close> give the translation of \<^verbatim>\<open>Lem Solaris Original\<close>.  The
  translation is the one applied to search patterns: on a cache written by
  \<^verbatim>\<open>__missing__\<close> only, both are \<open>FoldText\<close> of their joined text.
\<close>

theorem MakeFtsContent_fields:
  "(length fs = 4 \<longrightarrow>
      MakeFtsContent d m (shelf # fs @ rest) =
        translate d m (join (map the (filter (\<lambda>x. x \<noteq> None \<and> x \<noteq> Some []) fs)))) \<and>
   MakeFtsContent d m
     (shelf # Some (u ''Lem'') # Some (u ''Solaris'') # Some [] # Some (u ''Original'') # rest) =
     translate d m (u ''Lem Solaris Original'') \<and>
   (cache_ok d m \<longrightarrow>
      text_of (MakeFtsContent d m
        (shelf # Some (u ''Lem'') # Some (u ''Solaris'') # Some [] # Some (u ''Original'') # rest)) =
        FoldText d (u ''Lem Solaris Original'') \<and>
      text_of (search_pattern d m raw) =
        FoldText d (join (map (\<lambda>t. t @ u ''*'') (tokens raw))))"
proof -
  have a: "MakeFtsContent d m (shelf # fs @ rest) =
        translate d m (join (map the (filter (\<lambda>x. x \<noteq> None \<and> x \<noteq> Some []) fs)))"
    if "length fs = 4" for fs
    using that by (simp add: MakeFtsContent_def slice_def map_filter_kept)
  have b: "MakeFtsContent d m
     (shelf # Some (u ''Lem'') # Some (u ''Solaris'') # Some [] # Some (u ''Original'') # rest) =
     translate d m (u ''Lem Solaris Original'')"
    using a [of "[Some (u ''Lem''), Some (u ''Solaris''), Some [], Some (u ''Original'')]"]
    by (simp add: u_def)
  have c: "text_of (search_pattern d m raw) =
        FoldText d (join (map (\<lambda>t. t @ u ''*'') (tokens raw)))" if "cache_ok d m"
    using that
    by (simp add: search_pattern_def split_isspace_tokens translate_FoldText u_def)
  from a [of fs] b c show ?thesis by (simp add: translate_FoldText)
qed

theorem MakeFtsContent_fields_witness:
  "length [Some (u ''Lem''), None, Some [], Some (u ''Solaris'')] = 4 \<and>
   cache_ok ucd Map.empty \<and>
   MakeFtsContent ucd Map.empty
     ([Some (u ''A1''), Some (u ''Lem''), None, Some [], Some (u ''Solaris''), Some (u ''no'')]) =
     translate ucd Map.empty (u ''Lem Solaris'') \<and>
   text_of (MakeFtsContent ucd Map.empty
     [Some (u ''A1''), Some (u ''Lem''), Some (u ''Solaris''), Some [], Some (u ''Original''),
      Some (u ''no'')]) = FoldText ucd (u ''Lem Solaris Original'')"
proof -
  have l: "length [Some (u ''Lem''), None, Some [], Some (u ''Solaris'')] = 4" by simp
  have ok: "cache_ok ucd Map.empty" by (rule cache_ok_empty)
  note t = MakeFtsContent_fields [of "[Some (u ''Lem''), None, Some [], Some (u ''Solaris'')]"
      ucd Map.empty "Some (u ''A1'')" "[Some (u ''no'')]" "[]"]
  from t l have a: "MakeFtsContent ucd Map.empty
     ([Some (u ''A1''), Some (u ''Lem''), None, Some [], Some (u ''Solaris''), Some (u ''no'')]) =
     translate ucd Map.empty (u ''Lem Solaris'')"
    by (simp add: u_def)
  from t ok have b: "text_of (MakeFtsContent ucd Map.empty
     [Some (u ''A1''), Some (u ''Lem''), Some (u ''Solaris''), Some [], Some (u ''Original''),
      Some (u ''no'')]) = FoldText ucd (u ''Lem Solaris Original'')"
    by blast
  from l ok a b show ?thesis by (intro conjI)
qed

section \<open>Resolution of a code point, and folding twice\<close>

lemma replacement_valid:
  assumes "0 \<le> key" and "key < 0x110000"
  shows "replacement d key =
           Inr (if d key \<noteq> [] then
                  (case first_component (d key) of None \<Rightarrow> PyInt key | Some v \<Rightarrow> PyInt v)
                else (case map_of CHAR_REPLACEMENT key of
                        None \<Rightarrow> PyInt key | Some s \<Rightarrow> PyStr s))"
  using assms
  by (simp add: replacement_def chr_def first_component_def split: list.splits option.splits)

lemma getitem_twice:
  assumes "getitem d m key = Inr (ch, m')"
  shows "m' key = Some ch \<and> getitem d' m' key = Inr (ch, m')"
  using assms
  by (auto simp add: getitem_def missing_def split: option.splits sum.splits)

lemma getitem_total:
  assumes "0 \<le> key" and "key < 0x110000"
  shows "\<exists>ch m'. getitem d m key = Inr (ch, m')"
  using replacement_valid [OF assms, of d]
  by (auto simp add: getitem_def missing_def split: option.splits sum.splits)

lemma CHAR_REPLACEMENT_nonempty: "map_of CHAR_REPLACEMENT key = Some s \<Longrightarrow> s \<noteq> []"
  by (auto simp add: CHAR_REPLACEMENT_def u_def split: if_splits)

lemma replacement_PyStr:
  "replacement d key = Inr (PyStr s) \<Longrightarrow> map_of CHAR_REPLACEMENT key = Some s"
  by (auto simp add: replacement_def Let_def
      split: sum.splits if_splits list.splits option.splits)

lemma Fold_nonempty:
  assumes "Fold d c = Inr t"
  shows "t \<noteq> []"
proof -
  from assms obtain x where x: "replacement d c = Inr x" and t: "chars_of x = Inr t"
    by (auto simp add: Fold_def split: sum.splits)
  show ?thesis
  proof (cases x)
    case (PyInt v)
    with t show ?thesis by (auto simp add: chars_of_def split: if_splits)
  next
    case (PyStr s)
    with x have "map_of CHAR_REPLACEMENT c = Some s" by (simp add: replacement_PyStr)
    then have "s \<noteq> []" by (rule CHAR_REPLACEMENT_nonempty)
    with t PyStr show ?thesis by (simp add: chars_of_def)
  qed
qed

lemma FoldText_length: "FoldText d s = Inr t \<Longrightarrow> length s \<le> length t"
proof (induction s arbitrary: t)
  case Nil
  then show ?case by simp
next
  case (Cons c cs)
  from Cons.prems obtain a r where a: "Fold d c = Inr a" and r: "FoldText d cs = Inr r"
    and t: "t = a @ r"
    by (auto split: sum.splits)
  from a have "a \<noteq> []" by (rule Fold_nonempty)
  then have "1 \<le> length a" by (cases a) simp_all
  moreover from r have "length cs \<le> length r" by (rule Cons.IH)
  ultimately show ?case using t by simp
qed

lemma FoldText_fixed_iff: "FoldText d t = Inr t \<longleftrightarrow> (\<forall>c\<in>set t. Fold d c = Inr [c])"
proof (induction t)
  case Nil
  then show ?case by simp
next
  case (Cons c cs)
  show ?case
  proof
    assume f: "FoldText d (c # cs) = Inr (c # cs)"
    then obtain a r where a: "Fold d c = Inr a" and r: "FoldText d cs = Inr r"
      and t: "c # cs = a @ r"
      by (auto split: sum.splits)
    from a have ne: "a \<noteq> []" by (rule Fold_nonempty)
    from r have "length cs \<le> length r" by (rule FoldText_length)
    moreover from t have "length a + length r = Suc (length cs)"
      by (metis length_Cons length_append)
    ultimately have "length a \<le> 1" by simp
    with ne obtain x where "a = [x]" by (cases a) auto
    with t have "a = [c]" and "r = cs" by simp_all
    with a r Cons.IH show "\<forall>x\<in>set (c # cs). Fold d x = Inr [x]" by simp
  next
    assume "\<forall>x\<in>set (c # cs). Fold d x = Inr [x]"
    with Cons.IH show "FoldText d (c # cs) = Inr (c # cs)" by simp
  qed
qed


lemma translate_twice_FoldText:
  assumes "cache_ok d m"
  shows "text_of (translate_twice d m s) =
           (case FoldText d s of Inl e \<Rightarrow> Inl e | Inr t \<Rightarrow> FoldText d t)"
proof (cases "translate d m s")
  case (Inl e)
  with translate_FoldText [OF assms, of s] have "FoldText d s = Inl e"
    by (simp add: text_of_def)
  with Inl show ?thesis by (simp add: translate_twice_def text_of_def)
next
  case (Inr p)
  obtain t m1 where p: "p = (t, m1)" by (cases p)
  with Inr assms have ok: "cache_ok d m1" by (auto intro: translate_cache_ok)
  from translate_FoldText [OF assms, of s] Inr p have "FoldText d s = Inr t"
    by (simp add: text_of_def)
  with translate_FoldText [OF ok, of t] Inr p show ?thesis
    by (simp add: translate_twice_def)
qed


lemma Fold_identity:
  "0 \<le> c \<Longrightarrow> c < 0x110000 \<Longrightarrow> d c = [] \<Longrightarrow> map_of CHAR_REPLACEMENT c = None \<Longrightarrow>
   Fold d c = Inr [c]"
  by (simp add: Fold_def replacement_valid chars_of_def)

lemma first_component_canonical [simp]:
  "first_component ''0065 0301'' = Some 0x65"
  "first_component ''0075 0308'' = Some 0x75"
  "first_component ''00FC 0304'' = Some 0xFC"
  by (simp_all add: first_component_def split1_def isspace_def int16_def digit_value_def)

lemma first_component_noBreak [simp]: "first_component ''<noBreak> 0020'' = None"
  by (simp add: first_component_def split1_def isspace_def int16_def digit_value_def)

lemma no_override [simp]:
  "map_of CHAR_REPLACEMENT 0x301 = None"
  "map_of CHAR_REPLACEMENT 0xA0 = None"
  "map_of CHAR_REPLACEMENT 0x65 = None"
  "map_of CHAR_REPLACEMENT 0x75 = None"
  "map_of CHAR_REPLACEMENT 0xE9 = None"
  by (simp_all add: CHAR_REPLACEMENT_def)

text \<open>
  Against claim C1 as stated: U+01D6 (u with diaeresis and macron) decomposes to
  \<^verbatim>\<open>00FC 0304\<close>, so it is translated to U+00FC (u with diaeresis); U+00FC in turn
  decomposes to \<^verbatim>\<open>0075 0308\<close> and is translated to \<^verbatim>\<open>u\<close>.  Translating twice
  gives \<^verbatim>\<open>u\<close>, translating once gives U+00FC, a character that does not map to
  itself.
\<close>

theorem fold_twice_counterexample:
  "text_of (translate ucd Map.empty [0x1D6]) = Inr [0xFC] \<and>
   text_of (translate_twice ucd Map.empty [0x1D6]) = Inr [0x75] \<and>
   Fold ucd 0xFC = Inr [0x75]"
proof -
  have a: "Fold ucd 0x1D6 = Inr [0xFC]"
    by (simp add: Fold_def replacement_valid ucd_def chars_of_def)
  have b: "Fold ucd 0xFC = Inr [0x75]"
    by (simp add: Fold_def replacement_valid ucd_def chars_of_def)
  from a b show ?thesis
    by (simp add: translate_FoldText translate_twice_FoldText cache_ok_empty
        del: translate.simps)
qed

text \<open>
  Claim C1, amended.  On a cache written by \<^verbatim>\<open>__missing__\<close> only, translating a
  string twice gives the same as translating it once exactly when every character of
  the once-translated string maps to itself (or the translation raises, and then it
  raises both times).  The translation strips one level of decomposition only.
\<close>

theorem fold_twice:
  assumes "cache_ok d m"
  shows "text_of (translate_twice d m s) = text_of (translate d m s) \<longleftrightarrow>
         (case FoldText d s of Inl e \<Rightarrow> True | Inr t \<Rightarrow> \<forall>c\<in>set t. Fold d c = Inr [c])"
proof (cases "FoldText d s")
  case (Inl e)
  with assms show ?thesis by (simp add: translate_FoldText translate_twice_FoldText)
next
  case (Inr t)
  with assms show ?thesis
    by (simp add: translate_FoldText translate_twice_FoldText FoldText_fixed_iff)
qed

theorem fold_twice_witness:
  "cache_ok ucd Map.empty \<and> FoldText ucd [0xE9] = Inr [0x65] \<and> Fold ucd 0x65 = Inr [0x65] \<and>
   text_of (translate_twice ucd Map.empty [0xE9]) = text_of (translate ucd Map.empty [0xE9])"
proof -
  have ok: "cache_ok ucd Map.empty" by (rule cache_ok_empty)
  have a: "FoldText ucd [0xE9] = Inr [0x65]"
    by (simp add: Fold_def replacement_valid ucd_def chars_of_def)
  have b: "Fold ucd 0x65 = Inr [0x65]"
    by (simp add: Fold_identity ucd_def)
  from fold_twice [OF ok, of "[0xE9]"] a b
  have "text_of (translate_twice ucd Map.empty [0xE9]) = text_of (translate ucd Map.empty [0xE9])"
    by simp
  with ok a b show ?thesis by (intro conjI)
qed

text \<open>
  Against claim C3 as stated: U+00A0 has the compatibility decomposition
  \<^verbatim>\<open><noBreak> 0020\<close> and no override entry.  By the claimed order its replacement is
  the first decomposed component, U+0020; the code reads the first field, the tag, fails to
  parse it as a number and leaves U+00A0 unchanged.
\<close>

theorem resolution_order_counterexample:
  "ucd 0xA0 = ''<noBreak> 0020'' \<and> map_of CHAR_REPLACEMENT 0xA0 = None \<and>
   spec_replacement ucd 0xA0 = PyInt 0x20 \<and> replacement ucd 0xA0 = Inr (PyInt 0xA0)"
proof -
  have "split (\<lambda>c. isspace (of_char c)) ''<noBreak> 0020'' = [''<noBreak>'', ''0020'']"
    by (simp add: split_Cons isspace_def)
  then have "spec_first_component ''<noBreak> 0020'' = Some 0x20"
    by (simp add: spec_first_component_def is_tag_def int16_def digit_value_def)
  then show ?thesis
    by (simp add: spec_replacement_def replacement_valid ucd_def)
qed

lemma split1_split:
  "split1 sp s = [] \<longleftrightarrow> split sp s = []"
  "split1 sp s = t # ts \<Longrightarrow> \<exists>ts'. split sp s = t # ts'"
  by (subst split.simps, simp add: split1_def Let_def split: if_splits)+

lemma spec_first_component_untagged:
  assumes "\<forall>t ts. split1 (\<lambda>c. isspace (of_char c)) de = t # ts \<longrightarrow> \<not> is_tag t"
  shows "spec_first_component de = first_component de"
proof (cases "split1 (\<lambda>c. isspace (of_char c)) de")
  case Nil
  then have "split (\<lambda>c. isspace (of_char c)) de = []" by (simp only: split1_split(1))
  with Nil show ?thesis
    by (simp add: spec_first_component_def first_component_def)
next
  case (Cons t ts)
  with assms have "\<not> is_tag t" by simp
  moreover from Cons obtain ts' where "split (\<lambda>c. isspace (of_char c)) de = t # ts'"
    using split1_split(2) by blast
  ultimately show ?thesis using Cons
    by (simp add: spec_first_component_def first_component_def)
qed

text \<open>
  Claim C3, amended.  For a code point, the replacement is resolved in this order.  If
  the decomposition text is not empty: its first field when that field is a hexadecimal
  number (a canonical decomposition), whether or not the override table has an entry; the
  code point itself when the first field is not a number (the tag of a compatibility
  decomposition) or there is no field.  If the code point has no decomposition: the entry
  of the override table when there is one, the code point itself otherwise.  The result is
  stored in the cache, and the next lookup returns the stored value without consulting the
  decomposition table.  This agrees with the order of the claim (override table, first
  decomposed component, identity) for every code point without a decomposition, and for
  every code point without an override entry whose decomposition does not start with a tag.
\<close>

theorem resolution_order:
  assumes "0 \<le> key" and "key < 0x110000"
  shows "(\<forall>v. d key \<noteq> [] \<and> first_component (d key) = Some v \<longrightarrow>
            replacement d key = Inr (PyInt v)) \<and>
         (d key \<noteq> [] \<and> first_component (d key) = None \<longrightarrow>
            replacement d key = Inr (PyInt key)) \<and>
         (\<forall>s. d key = [] \<and> map_of CHAR_REPLACEMENT key = Some s \<longrightarrow>
            replacement d key = Inr (PyStr s)) \<and>
         (d key = [] \<and> map_of CHAR_REPLACEMENT key = None \<longrightarrow>
            replacement d key = Inr (PyInt key)) \<and>
         (cache_ok d m \<longrightarrow>
            (\<exists>ch m'. replacement d key = Inr ch \<and> getitem d m key = Inr (ch, m') \<and>
               m' key = Some ch \<and> cache_ok d m' \<and>
               (\<forall>d'. getitem d' m' key = Inr (ch, m')))) \<and>
         (d key = [] \<or>
          (map_of CHAR_REPLACEMENT key = None \<and>
           (\<forall>t ts. split1 (\<lambda>c. isspace (of_char c)) (d key) = t # ts \<longrightarrow> \<not> is_tag t)) \<longrightarrow>
            replacement d key = Inr (spec_replacement d key))"
proof -
  note r = replacement_valid [OF assms, of d]
  have cached: "\<exists>ch m'. replacement d key = Inr ch \<and> getitem d m key = Inr (ch, m') \<and>
               m' key = Some ch \<and> cache_ok d m' \<and>
               (\<forall>d'. getitem d' m' key = Inr (ch, m'))"
    if ok: "cache_ok d m"
  proof -
    from r obtain ch where ch: "replacement d key = Inr ch" by blast
    with ok have g: "getitem d m key = Inr (ch, m(key \<mapsto> ch))"
      by (simp add: getitem_cache_ok)
    from ok ch have "cache_ok d (m(key \<mapsto> ch))" by (rule cache_ok_upd)
    moreover have "\<forall>d'. getitem d' (m(key \<mapsto> ch)) key = Inr (ch, m(key \<mapsto> ch))"
      using getitem_twice [OF g] by blast
    ultimately show ?thesis using ch g by auto
  qed
  have e: "spec_first_component [] = None"
    by (simp add: spec_first_component_def)
  have agree1: "replacement d key = Inr (spec_replacement d key)" if "d key = []"
    using that r e by (simp add: spec_replacement_def split: option.splits)
  have agree2: "replacement d key = Inr (spec_replacement d key)"
    if "map_of CHAR_REPLACEMENT key = None"
      "\<forall>t ts. split1 (\<lambda>c. isspace (of_char c)) (d key) = t # ts \<longrightarrow> \<not> is_tag t"
  proof (cases "d key = []")
    case True
    then show ?thesis by (rule agree1)
  next
    case False
    with r that(1) spec_first_component_untagged [OF that(2)] show ?thesis
      by (simp add: spec_replacement_def split: option.splits)
  qed
  show ?thesis
    using r cached agree1 agree2 by (intro conjI impI allI) auto
qed

theorem resolution_order_witness:
  "(0::int) \<le> 0xE9 \<and> (0xE9::int) < 0x110000 \<and> ucd 0xE9 \<noteq> [] \<and>
   first_component (ucd 0xE9) = Some 0x65 \<and> cache_ok ucd Map.empty \<and>
   map_of CHAR_REPLACEMENT 0xE9 = None \<and>
   replacement ucd 0xE9 = Inr (PyInt 0x65) \<and>
   spec_replacement ucd 0xE9 = PyInt 0x65 \<and>
   (\<exists>m'. getitem ucd Map.empty 0xE9 = Inr (PyInt 0x65, m') \<and> m' 0xE9 = Some (PyInt 0x65))"
proof -
  have h: "(0::int) \<le> 0xE9" "(0xE9::int) < 0x110000" by simp_all
  note t = resolution_order [OF h, of ucd Map.empty]
  have d: "ucd 0xE9 \<noteq> []" "first_component (ucd 0xE9) = Some 0x65"
    by (simp_all add: ucd_def)
  have ok: "cache_ok ucd Map.empty" by (rule cache_ok_empty)
  from t d have r: "replacement ucd 0xE9 = Inr (PyInt 0x65)" by blast
  have "split1 (\<lambda>c. isspace (of_char c)) (ucd 0xE9) = [''0065'', ''0301'']"
    by (simp add: ucd_def split1_def isspace_def)
  then have "\<forall>t ts. split1 (\<lambda>c. isspace (of_char c)) (ucd 0xE9) = t # ts \<longrightarrow> \<not> is_tag t"
    by (simp add: is_tag_def)
  with t have "replacement ucd 0xE9 = Inr (spec_replacement ucd 0xE9)" by simp
  with r have s: "spec_replacement ucd 0xE9 = PyInt 0x65" by simp
  from t ok r have g: "\<exists>m'. getitem ucd Map.empty 0xE9 = Inr (PyInt 0x65, m') \<and>
      m' 0xE9 = Some (PyInt 0x65)"
    by auto
  from h d ok r s g show ?thesis by simp
qed

lemma first_component_Nil [simp]: "first_component [] = None"
  by (simp add: first_component_def split1_def)

lemma Fold_valid:
  assumes "0 \<le> key" and "key < 0x110000"
  shows "Fold d key =
           (if d key \<noteq> [] then
              (case first_component (d key) of
                 None \<Rightarrow> Inr [key]
               | Some v \<Rightarrow> if v < 0 \<or> 0x10FFFF < v then Inl ValueError else Inr [v])
            else (case map_of CHAR_REPLACEMENT key of None \<Rightarrow> Inr [key] | Some s \<Rightarrow> Inr s))"
  using assms
  by (simp add: Fold_def replacement_valid chars_of_def split: option.splits)

lemma translate_single:
  assumes "cache_ok d m"
  shows "text_of (translate d m [key]) = Fold d key"
proof -
  have "text_of (translate d m [key]) = FoldText d [key]"
    using assms by (rule translate_FoldText)
  then show ?thesis by (simp split: sum.splits)
qed

text \<open>
  Claim C9.  For every code point the lookup in \<^verbatim>\<open>UNACCENTED\<close> returns a value,
  whatever the cache and the decomposition table hold: no exception leaves
  \<^verbatim>\<open>__missing__\<close>.  When the decomposition data is malformed (no first field, or
  one that is not a hexadecimal number) the code point is mapped to itself.  When the
  decomposition is absent, the override table is consulted, and a code point without an
  entry there is mapped to itself, the last resort of the resolution order; one with an
  entry is given that entry.  In the malformed and in the absent case the text folder
  returns a result for the code point, and it does so for every code point of a table
  whose first components, when they are numbers, are code points.
\<close>

theorem fold_never_fails:
  assumes "0 \<le> key" and "key < 0x110000"
  shows "(\<exists>ch m'. getitem d m key = Inr (ch, m')) \<and>
         (\<exists>ch. replacement d key = Inr ch) \<and>
         (d key \<noteq> [] \<and> first_component (d key) = None \<longrightarrow>
            replacement d key = Inr (PyInt key) \<and> Fold d key = Inr [key]) \<and>
         (d key = [] \<and> map_of CHAR_REPLACEMENT key = None \<longrightarrow>
            replacement d key = Inr (PyInt key) \<and> Fold d key = Inr [key]) \<and>
         (\<forall>s. d key = [] \<and> map_of CHAR_REPLACEMENT key = Some s \<longrightarrow>
            replacement d key = Inr (PyStr s) \<and> Fold d key = Inr s) \<and>
         (d key = [] \<or> first_component (d key) = None \<longrightarrow> (\<exists>t. Fold d key = Inr t)) \<and>
         ((\<forall>v. first_component (d key) = Some v \<longrightarrow> 0 \<le> v \<and> v < 0x110000) \<longrightarrow>
            (\<exists>t. Fold d key = Inr t)) \<and>
         (cache_ok d m \<longrightarrow> text_of (translate d m [key]) = Fold d key)"
proof -
  note r = replacement_valid [OF assms, of d]
  note f = Fold_valid [OF assms, of d]
  have lookup: "\<exists>ch m'. getitem d m key = Inr (ch, m')"
    using assms by (rule getitem_total)
  have stored: "\<exists>ch. replacement d key = Inr ch" using r by simp
  have malformed: "replacement d key = Inr (PyInt key) \<and> Fold d key = Inr [key]"
    if "d key \<noteq> []" "first_component (d key) = None"
    using that r f by simp
  have absent: "replacement d key = Inr (PyInt key) \<and> Fold d key = Inr [key]"
    if "d key = []" "map_of CHAR_REPLACEMENT key = None"
    using that r f by simp
  have override: "replacement d key = Inr (PyStr s) \<and> Fold d key = Inr s"
    if "d key = []" "map_of CHAR_REPLACEMENT key = Some s" for s
    using that r f by simp
  have sane: "\<exists>t. Fold d key = Inr t"
    if "\<forall>v. first_component (d key) = Some v \<longrightarrow> 0 \<le> v \<and> v < 0x110000"
  proof (cases "first_component (d key)")
    case None
    then show ?thesis using f by (simp split: option.splits)
  next
    case (Some v)
    with that have "0 \<le> v" "v < 0x110000" by simp_all
    with Some show ?thesis using f by (simp split: option.splits)
  qed
  have fallback: "\<exists>t. Fold d key = Inr t"
    if "d key = [] \<or> first_component (d key) = None"
  proof -
    from that have "first_component (d key) = None" by auto
    then show ?thesis using sane by simp
  qed
  have folder: "text_of (translate d m [key]) = Fold d key" if "cache_ok d m"
    using that by (rule translate_single)
  from lookup stored malformed absent override fallback sane folder show ?thesis
    by (intro conjI impI allI) auto
qed

theorem fold_never_fails_witness:
  "(0::int) \<le> 0xA0 \<and> (0xA0::int) < 0x110000 \<and> ucd 0xA0 \<noteq> [] \<and>
   first_component (ucd 0xA0) = None \<and>
   replacement ucd 0xA0 = Inr (PyInt 0xA0) \<and> Fold ucd 0xA0 = Inr [0xA0] \<and>
   (0::int) \<le> 0x301 \<and> (0x301::int) < 0x110000 \<and> ucd 0x301 = [] \<and>
   map_of CHAR_REPLACEMENT 0x301 = None \<and>
   replacement ucd 0x301 = Inr (PyInt 0x301) \<and> Fold ucd 0x301 = Inr [0x301] \<and>
   (0::int) \<le> 0xC6 \<and> (0xC6::int) < 0x110000 \<and> ucd 0xC6 = [] \<and>
   map_of CHAR_REPLACEMENT 0xC6 = Some (u ''AE'') \<and> Fold ucd 0xC6 = Inr (u ''AE'') \<and>
   (0::int) \<le> 0xE9 \<and> (0xE9::int) < 0x110000 \<and> first_component (ucd 0xE9) = Some 0x65 \<and>
   (0::int) \<le> 0x65 \<and> (0x65::int) < 0x110000 \<and> (\<exists>t. Fold ucd 0xE9 = Inr t) \<and>
   cache_ok ucd Map.empty \<and> text_of (translate ucd Map.empty [0xA0]) = Inr [0xA0]"
proof -
  have a: "(0::int) \<le> 0xA0" "(0xA0::int) < 0x110000" by simp_all
  have b: "(0::int) \<le> 0x301" "(0x301::int) < 0x110000" by simp_all
  have c: "(0::int) \<le> 0xC6" "(0xC6::int) < 0x110000" by simp_all
  have e: "(0::int) \<le> 0xE9" "(0xE9::int) < 0x110000" by simp_all
  have da: "ucd 0xA0 \<noteq> []" "first_component (ucd 0xA0) = None" by (simp_all add: ucd_def)
  have db: "ucd 0x301 = []" "map_of CHAR_REPLACEMENT 0x301 = None" by (simp_all add: ucd_def)
  have dc: "ucd 0xC6 = []" "map_of CHAR_REPLACEMENT 0xC6 = Some (u ''AE'')"
    by (simp_all add: ucd_def CHAR_REPLACEMENT_def)
  have de: "first_component (ucd 0xE9) = Some 0x65" by (simp add: ucd_def)
  have ok: "cache_ok ucd Map.empty" by (rule cache_ok_empty)
  from fold_never_fails [OF a, of ucd Map.empty] da ok
  have ra: "replacement ucd 0xA0 = Inr (PyInt 0xA0) \<and> Fold ucd 0xA0 = Inr [0xA0] \<and>
      text_of (translate ucd Map.empty [0xA0]) = Inr [0xA0]"
    by simp
  from fold_never_fails [OF b, of ucd Map.empty] db
  have rb: "replacement ucd 0x301 = Inr (PyInt 0x301) \<and> Fold ucd 0x301 = Inr [0x301]"
    by simp
  from fold_never_fails [OF c, of ucd Map.empty] dc
  have rc: "Fold ucd 0xC6 = Inr (u ''AE'')" by simp
  from fold_never_fails [OF e, of ucd Map.empty] de
  have re: "\<exists>t. Fold ucd 0xE9 = Inr t" by simp
  from a b c e da db dc de ok ra rb rc re show ?thesis by simp
qed





end
